theory Spec2Isabelle
  imports Complex_Main
begin

section \<open>Data model of \<^verbatim>\<open>open_r1/code_rewards.py\<close>\<close>

text \<open>
  A Python \<^verbatim>\<open>str\<close> is a sequence of Unicode code points; it is modelled as a list of
  natural numbers, and \<open>py\<close> turns an ASCII literal into such a list.
\<close>

type_synonym str = "nat list"

definition py :: "string \<Rightarrow> str" where
  "py s = map of_char s"

definition newline :: nat where
  "newline = 10"

text \<open>
  The dictionaries the reward functions receive. A test case is
  \<^verbatim>\<open>{"input": ..., "output": ..., "label": ...}\<close>; \<^verbatim>\<open>case.get("label")\<close> is \<open>None\<close> when the
  key is absent or null. (\<open>output\<close> is a reserved word of Isabelle, hence the prefix.)
\<close>

record test_case =
  tc_input :: str
  tc_output :: str
  tc_label :: "str option"

record verification_info =
  language :: str
  test_cases :: "test_case list"

record turn =
  role :: str
  content :: str

type_synonym completion = "turn list"

section \<open>The curriculum: \<^verbatim>\<open>label_schedule\<close>\<close>

definition label_schedule :: "int \<Rightarrow> str list" where
  "label_schedule epoch =
     (if epoch < 1 then [py ''basic'']
      else if epoch < 2 then [py ''basic'', py ''medium'']
      else if epoch < 3 then [py ''basic'', py ''medium'', py ''high'']
      else [py ''basic'', py ''medium'', py ''high'', py ''edge''])"

section \<open>Exceptions\<close>

text \<open>
  Every \<^verbatim>\<open>raise\<close> of the module and of the calls it makes is a value: a function that can
  raise returns \<open>error + 'a\<close>, with \<open>Inl\<close> for the exception. \<open>ValueError\<close> carries the
  second argument the module gives it, \<open>OtherError\<close> stands for any further subclass of
  \<^verbatim>\<open>Exception\<close> (with its message), as the sandbox client or \<^verbatim>\<open>subprocess.run\<close> raise.
\<close>

datatype error =
    ImportError
  | IndexError
  | ValueError "verification_info list"
  | TimeoutExpired
  | OtherError str

section \<open>String operations of Python\<close>

text \<open>
  \<^verbatim>\<open>str.strip()\<close> removes leading and trailing white space, the code points for which
  \<^verbatim>\<open>str.isspace\<close> holds.
\<close>

definition isspace :: "nat \<Rightarrow> bool" where
  "isspace c \<longleftrightarrow>
     (9 \<le> c \<and> c \<le> 13) \<or> (28 \<le> c \<and> c \<le> 32) \<or> c = 133 \<or> c = 160 \<or> c = 5760 \<or>
     (8192 \<le> c \<and> c \<le> 8202) \<or> c = 8232 \<or> c = 8233 \<or> c = 8239 \<or> c = 8287 \<or> c = 12288"

definition strip :: "str \<Rightarrow> str" where
  "strip s = rev (dropWhile isspace (rev (dropWhile isspace s)))"

text \<open>\<^verbatim>\<open>s.split(sep)\<close> for a separator of one code point: never an empty list.\<close>

fun split_on :: "nat \<Rightarrow> str \<Rightarrow> str list" where
  "split_on sep [] = [[]]"
| "split_on sep (c # cs) =
     (if c = sep then [] # split_on sep cs
      else (case split_on sep cs of
              [] \<Rightarrow> [[c]]
            | l # ls \<Rightarrow> (c # l) # ls))"

section \<open>\<^verbatim>\<open>extract_code\<close>\<close>

text \<open>
  The pattern is \<^verbatim>\<open>```{language}\n(.*?)```\<close> with \<^verbatim>\<open>re.DOTALL\<close>. For a tag of letters and
  digits it is a literal opener, a lazy group that matches any code points, and a literal
  closing fence. \<open>split_at_first\<close> is the lazy group followed by the literal: the group
  grows by one code point until the literal matches. \<open>match_at\<close> is one attempt of the
  pattern at the start of the text, and \<open>findall\<close> is \<^verbatim>\<open>pattern.findall\<close>: it tries the
  pattern at every position from left to right, and resumes behind a match.
\<close>

definition fence :: str where
  "fence = py ''```''"

definition opener :: "str \<Rightarrow> str" where
  "opener lang = fence @ lang @ [newline]"

definition starts_with :: "'a list \<Rightarrow> 'a list \<Rightarrow> bool" where
  "starts_with p s \<longleftrightarrow> take (length p) s = p"

fun split_at_first :: "'a list \<Rightarrow> 'a list \<Rightarrow> ('a list \<times> 'a list) option" where
  "split_at_first pat [] = (if pat = [] then Some ([], []) else None)"
| "split_at_first pat (x # xs) =
     (if starts_with pat (x # xs) then Some ([], drop (length pat) (x # xs))
      else (case split_at_first pat xs of
              None \<Rightarrow> None
            | Some (b, r) \<Rightarrow> Some (x # b, r)))"

definition match_at :: "str \<Rightarrow> str \<Rightarrow> (str \<times> str) option" where
  "match_at lang s =
     (if starts_with (opener lang) s
      then split_at_first fence (drop (length (opener lang)) s)
      else None)"

lemma starts_with_length: "starts_with p s \<Longrightarrow> length p \<le> length s"
proof -
  assume "starts_with p s"
  then have "length (take (length p) s) = length p"
    by (simp add: starts_with_def)
  then show ?thesis by simp
qed

lemma split_at_first_length:
  "split_at_first pat s = Some (b, r) \<Longrightarrow> length b + length pat + length r = length s"
proof (induction s arbitrary: b r)
  case Nil
  then show ?case by (simp split: if_splits)
next
  case (Cons x xs)
  show ?case
  proof (cases "starts_with pat (x # xs)")
    case True
    from starts_with_length [OF True] have "length pat \<le> Suc (length xs)" by simp
    moreover from True Cons.prems have "b = []" and "r = drop (length pat) (x # xs)" by simp_all
    ultimately show ?thesis by simp
  next
    case False
    with Cons.prems obtain b' where "split_at_first pat xs = Some (b', r)" and "b = x # b'"
      by (auto split: option.splits)
    with Cons.IH [of b' r] show ?thesis by simp
  qed
qed

lemma match_at_shorter:
  assumes "match_at lang s = Some (b, r)"
  shows "length r < length s"
proof -
  from assms have sw: "starts_with (opener lang) s"
    and sp: "split_at_first fence (drop (length (opener lang)) s) = Some (b, r)"
    by (simp_all add: match_at_def split: if_splits)
  from split_at_first_length [OF sp]
  have "length r \<le> length s - length (opener lang)" by simp
  moreover have "0 < length (opener lang)" by (simp add: opener_def)
  moreover from starts_with_length [OF sw] have "length (opener lang) \<le> length s" .
  ultimately show ?thesis by arith
qed

function findall :: "str \<Rightarrow> str \<Rightarrow> str list" where
  "findall lang s =
     (case match_at lang s of
        Some (body, rest) \<Rightarrow> body # findall lang rest
      | None \<Rightarrow> (case s of [] \<Rightarrow> [] | _ # s' \<Rightarrow> findall lang s'))"
  by pat_completeness auto
termination
proof (relation "measure (\<lambda>(lang, s). length s)")
  show "wf (measure (\<lambda>(lang, s). length s))" by simp
next
  fix lang s :: str and x2 body rest
  assume "match_at lang s = Some x2" and "(body, rest) = x2"
  then have "match_at lang s = Some (body, rest)" by simp
  from match_at_shorter [OF this]
  show "((lang, rest), (lang, s)) \<in> measure (\<lambda>(lang, s). length s)" by simp
next
  fix lang s :: str and x21 x22
  assume "s = x21 # x22"
  then show "((lang, x22), (lang, s)) \<in> measure (\<lambda>(lang, s). length s)" by simp
qed

declare findall.simps [simp del]

definition extract_code :: "str \<Rightarrow> str \<Rightarrow> str" where
  "extract_code completion lang =
     (let matches = findall lang completion
      in if length matches \<ge> 1 then last matches else [])"

section \<open>The evaluation script\<close>

text \<open>
  \<^verbatim>\<open>evaluation_script_template\<close> is Python source that the sandbox runs. Its one function,
  \<^verbatim>\<open>evaluate_code\<close>, is translated here. \<^verbatim>\<open>subprocess.run\<close> is the environment: given the
  snippet and the text for standard input it returns a completed process, or raises
  (\<^verbatim>\<open>TimeoutExpired\<close> once the child has run for \<^verbatim>\<open>exec_timeout\<close> seconds). The weights are
  multiples of 0.25, which binary floating point adds without rounding, so \<open>real\<close> stands
  for \<^verbatim>\<open>float\<close>.
\<close>

record completed_process =
  returncode :: int
  stdout :: str

type_synonym subprocess = "str \<Rightarrow> str \<Rightarrow> error + completed_process"

definition weights :: "str \<rightharpoonup> real" where
  "weights =
     [py ''basic'' \<mapsto> 0.25, py ''medium'' \<mapsto> 0.25, py ''high'' \<mapsto> 0.25, py ''edge'' \<mapsto> 0.25]"

text \<open>The inner loop over \<^verbatim>\<open>zip(output.split('\n'), case['output'].split('\n'))\<close>.\<close>

fun lines_correct :: "(str \<times> str) list \<Rightarrow> bool \<Rightarrow> bool" where
  "lines_correct [] all_correct = all_correct"
| "lines_correct ((line1, line2) # ps) all_correct =
     lines_correct ps (all_correct \<and> strip line1 = strip line2)"

text \<open>The loop over the test cases, with its two accumulators.\<close>

fun evaluate_cases :: "subprocess \<Rightarrow> str \<Rightarrow> test_case list \<Rightarrow> real \<Rightarrow> real \<Rightarrow> error + real" where
  "evaluate_cases run code [] passed_weight total_weight = Inr passed_weight"
| "evaluate_cases run code (c # cs) passed_weight total_weight =
     (let lbl = (case tc_label c of None \<Rightarrow> py ''minimal'' | Some l \<Rightarrow> l);
          weight = (case weights (strip lbl) of None \<Rightarrow> 0 | Some w \<Rightarrow> w);
          total_weight' = total_weight + weight
      in case run code (tc_input c) of
           Inl e \<Rightarrow> Inl e
         | Inr process \<Rightarrow>
             if returncode process \<noteq> 0 then evaluate_cases run code cs passed_weight total_weight'
             else
               let out = strip (stdout process);
                   all_correct =
                     lines_correct (zip (split_on newline out) (split_on newline (tc_output c))) True
               in if all_correct
                  then evaluate_cases run code cs (passed_weight + weight) total_weight'
                  else evaluate_cases run code cs passed_weight total_weight')"

definition evaluate_code :: "subprocess \<Rightarrow> str \<Rightarrow> test_case list \<Rightarrow> error + real" where
  "evaluate_code run code cases = evaluate_cases run code cases 0 0"

section \<open>The sandbox and the dispatcher\<close>

text \<open>
  A script is the template with the snippet and the test cases filled in through
  \<^verbatim>\<open>json.dumps\<close>; the template is fixed, so the pair stands for the rendered text.
\<close>

record script =
  script_code :: str
  script_test_cases :: "test_case list"

text \<open>
  \<^verbatim>\<open>run_script\<close> reads \<^verbatim>\<open>execution.text\<close> only through \<^verbatim>\<open>float\<close>, which raises
  \<^verbatim>\<open>TypeError\<close> on \<open>None\<close>, raises \<^verbatim>\<open>ValueError\<close> on a string that is no number, and
  returns the number otherwise. The text is modelled by which of the three it is.
\<close>

datatype exec_text = TextNone | TextNotFloat str | TextFloat real

text \<open>
  The sandbox client (\<^verbatim>\<open>e2b_code_interpreter.AsyncSandbox\<close>) is the environment: what
  \<^verbatim>\<open>create\<close> and \<^verbatim>\<open>kill\<close> raise, if anything, and what the \<open>i\<close>-th \<^verbatim>\<open>run_code\<close> request of
  a dispatch returns or raises. The calls the module makes to it are recorded as events.
\<close>

record sandbox =
  create :: "error option"
  run_code :: "nat \<Rightarrow> script \<Rightarrow> str \<Rightarrow> error + exec_text"
  kill :: "error option"

datatype event = Create | RunCode script str | Kill

text \<open>
  \<^verbatim>\<open>run_script\<close>: the \<^verbatim>\<open>await sbx.run_code(...)\<close> stands before the \<^verbatim>\<open>try\<close>, so what it
  raises leaves the function; the handlers cover \<^verbatim>\<open>float(execution.text)\<close> only.
\<close>

definition run_script :: "sandbox \<Rightarrow> nat \<Rightarrow> script \<Rightarrow> str \<Rightarrow> error + real" where
  "run_script sbx i scr lang =
     (case run_code sbx i scr lang of
        Inl e \<Rightarrow> Inl e
      | Inr execution \<Rightarrow>
          (case execution of
             TextFloat v \<Rightarrow> Inr v
           | TextNone \<Rightarrow> Inr 0
           | TextNotFloat t \<Rightarrow> Inr 0))"

text \<open>
  \<^verbatim>\<open>asyncio.gather(*tasks)\<close> without \<^verbatim>\<open>return_exceptions\<close>: the results in the order of
  the tasks, or the exception of a task that raised. With several, the one that comes
  first in time is raised; the model takes the first of the list, and no caller reads
  which one it is.
\<close>

fun gather :: "(error + 'a) list \<Rightarrow> error + 'a list" where
  "gather [] = Inr []"
| "gather (Inl e # ts) = Inl e"
| "gather (Inr v # ts) = (case gather ts of Inl e \<Rightarrow> Inl e | Inr vs \<Rightarrow> Inr (v # vs))"

text \<open>
  \<^verbatim>\<open>run_async\<close>: every task issues its request when \<^verbatim>\<open>gather\<close> starts it, so all requests
  are made whatever they answer; \<^verbatim>\<open>sbx.kill()\<close> is the statement after the \<^verbatim>\<open>await\<close> of
  \<^verbatim>\<open>gather\<close> and is reached only when that returns.
\<close>

definition run_async :: "sandbox \<Rightarrow> script list \<Rightarrow> str \<Rightarrow> (error + real list) \<times> event list" where
  "run_async sbx scripts lang =
     (case create sbx of
        Some e \<Rightarrow> (Inl e, [Create])
      | None \<Rightarrow>
          (let tasks = map (\<lambda>(i, scr). run_script sbx i scr lang) (enumerate 0 scripts);
               requests = Create # map (\<lambda>scr. RunCode scr lang) scripts
           in case gather tasks of
                Inl e \<Rightarrow> (Inl e, requests)
              | Inr results \<Rightarrow>
                  (case kill sbx of
                     Some e \<Rightarrow> (Inl e, requests @ [Kill])
                   | None \<Rightarrow> (Inr results, requests @ [Kill]))))"

text \<open>\<^verbatim>\<open>run_async_from_sync\<close> prints the exception and raises it again.\<close>

definition run_async_from_sync :: "sandbox \<Rightarrow> script list \<Rightarrow> str \<Rightarrow> (error + real list) \<times> event list" where
  "run_async_from_sync sbx scripts lang = run_async sbx scripts lang"

section \<open>\<^verbatim>\<open>code_based_on_unittests_reward\<close>\<close>

text \<open>
  \<^verbatim>\<open>[extract_code(completion[-1]["content"]) for completion in completions]\<close>: the index
  \<open>-1\<close> raises \<^verbatim>\<open>IndexError\<close> on a completion without turns. \<^verbatim>\<open>extract_code\<close> is called with
  its default tag.
\<close>

fun code_snippets :: "completion list \<Rightarrow> error + str list" where
  "code_snippets [] = Inr []"
| "code_snippets (c # cs) =
     (if c = [] then Inl IndexError
      else (case code_snippets cs of
              Inl e \<Rightarrow> Inl e
            | Inr snippets \<Rightarrow> Inr (extract_code (content (last c)) (py ''python'') # snippets)))"

definition build_scripts :: "str list \<Rightarrow> verification_info list \<Rightarrow> script list" where
  "build_scripts snippets infos =
     map (\<lambda>(code, info). \<lparr>script_code = code, script_test_cases = test_cases info\<rparr>)
       (zip snippets infos)"

text \<open>
  The reward function. \<open>available\<close> is what \<^verbatim>\<open>is_e2b_available()\<close> returns. The result is
  the list of rewards or the exception that leaves the function, with the calls made to
  the sandbox.
\<close>

definition code_based_on_unittests_reward ::
  "sandbox \<Rightarrow> bool \<Rightarrow> completion list \<Rightarrow> verification_info list \<Rightarrow> (error + real list) \<times> event list"
where
  "code_based_on_unittests_reward sbx available completions infos =
     (if \<not> available then (Inl ImportError, [])
      else case code_snippets completions of
        Inl e \<Rightarrow> (Inl e, [])
      | Inr snippets \<Rightarrow>
          (let scripts = build_scripts snippets infos
           in case infos of
                [] \<Rightarrow> (Inl IndexError, [])
              | v0 # _ \<Rightarrow>
                  (let lang = language v0
                   in if \<not> list_all (\<lambda>v. language v = lang) infos
                      then (Inl (ValueError infos), [])
                      else (case run_async_from_sync sbx scripts lang of
                              (Inl e, evs) \<Rightarrow> (Inr (replicate (length completions) 0), evs)
                            | (Inr rewards, evs) \<Rightarrow> (Inr rewards, evs)))))"

section \<open>\<^verbatim>\<open>curriculum_aware_reward_fn\<close>\<close>

text \<open>
  \<^verbatim>\<open>case.get("label") or "minimal"\<close>: \<open>None\<close> and the empty string are false.
\<close>

definition label_or_minimal :: "test_case \<Rightarrow> str" where
  "label_or_minimal c =
     (case tc_label c of
        None \<Rightarrow> py ''minimal''
      | Some l \<Rightarrow> if l = [] then py ''minimal'' else l)"

definition filter_test_cases :: "str list \<Rightarrow> verification_info \<Rightarrow> verification_info" where
  "filter_test_cases allowed_labels info =
     info\<lparr>test_cases := filter (\<lambda>c. label_or_minimal c \<in> set allowed_labels) (test_cases info)\<rparr>"

text \<open>
  The loop assigns to \<^verbatim>\<open>info["test_cases"]\<close> of the caller's records, so the function
  returns the records as it leaves them beside the result of the reward function.
\<close>

definition curriculum_aware_reward_fn ::
  "sandbox \<Rightarrow> bool \<Rightarrow> completion list \<Rightarrow> verification_info list \<Rightarrow> int
     \<Rightarrow> ((error + real list) \<times> event list) \<times> verification_info list"
where
  "curriculum_aware_reward_fn sbx available completions infos epoch =
     (let allowed_labels = label_schedule epoch;
          infos' = map (filter_test_cases allowed_labels) infos
      in (code_based_on_unittests_reward sbx available completions infos', infos'))"

section \<open>What the specification says, for comparison with the code\<close>

text \<open>
  The value of the payload in the words of the specification: a test case has the weight
  that the fixed mapping gives its label (trimmed; \<open>minimal\<close> when there is none) and
  weight 0 when the mapping has no such label; it passes when the subprocess exits with
  code 0 and the lines of its trimmed output agree, trimmed, with the lines of the
  expected output, pair by pair as far as both have lines.
\<close>

definition case_weight :: "test_case \<Rightarrow> real" where
  "case_weight c =
     (if strip (case tc_label c of None \<Rightarrow> py ''minimal'' | Some l \<Rightarrow> l)
           \<in> {py ''basic'', py ''medium'', py ''high'', py ''edge''}
      then 1 / 4 else 0)"

definition case_passes :: "subprocess \<Rightarrow> str \<Rightarrow> test_case \<Rightarrow> bool" where
  "case_passes run code c =
     (case run code (tc_input c) of
        Inl e \<Rightarrow> False
      | Inr process \<Rightarrow>
          returncode process = 0 \<and>
          list_all (\<lambda>(l1, l2). l1 = l2)
            (zip (map strip (split_on newline (strip (stdout process))))
                 (map strip (split_on newline (tc_output c)))))"

definition weighted_pass_sum :: "subprocess \<Rightarrow> str \<Rightarrow> test_case list \<Rightarrow> real" where
  "weighted_pass_sum run code cases = sum_list (map case_weight (filter (case_passes run code) cases))"

text \<open>The exception of the first test case whose subprocess call raises, if any does.\<close>

fun first_fault :: "subprocess \<Rightarrow> str \<Rightarrow> test_case list \<Rightarrow> error option" where
  "first_fault run code [] = None"
| "first_fault run code (c # cs) =
     (case run code (tc_input c) of
        Inl e \<Rightarrow> Some e
      | Inr process \<Rightarrow> first_fault run code cs)"

text \<open>
  The label of a test case in the words of the specification: \<open>minimal\<close> when the label
  is absent or blank.
\<close>

definition spec_resolved_label :: "test_case \<Rightarrow> str" where
  "spec_resolved_label c =
     (case tc_label c of
        None \<Rightarrow> py ''minimal''
      | Some l \<Rightarrow> if strip l = [] then py ''minimal'' else l)"

text \<open>
  A sandbox that runs the payload as the interface of the specification has it: the text
  of an execution is the value of the script's last expression, and there is none when
  the script raises.
\<close>

definition payload_text :: "subprocess \<Rightarrow> script \<Rightarrow> exec_text" where
  "payload_text run scr =
     (case evaluate_code run (script_code scr) (script_test_cases scr) of
        Inl e \<Rightarrow> TextNone
      | Inr v \<Rightarrow> TextFloat v)"

definition payload_sandbox :: "subprocess \<Rightarrow> sandbox" where
  "payload_sandbox run =
     \<lparr>create = None, run_code = (\<lambda>i scr lang. Inr (payload_text run scr)), kill = None\<rparr>"

text \<open>
  A sandbox whose every request raises or answers with the text of the payload.
\<close>

definition reports_payload :: "subprocess \<Rightarrow> sandbox \<Rightarrow> bool" where
  "reports_payload run sbx \<longleftrightarrow>
     (\<forall>i scr lang. case run_code sbx i scr lang of
                      Inl e \<Rightarrow> True
                    | Inr t \<Rightarrow> t = payload_text run scr)"

text \<open>
  In the words of the specification: the text holds a fenced code block tagged with the
  language, that is an opener followed, somewhere behind it, by a closing fence.
\<close>

definition has_block :: "str \<Rightarrow> str \<Rightarrow> bool" where
  "has_block lang t \<longleftrightarrow> (\<exists>pre body post. t = pre @ opener lang @ body @ fence @ post)"

text \<open>
  The blocks of a text, from left to right: \<open>p\<close> occurs in \<open>g @ p\<close> at the end only, so
  in \<open>gap @ opener @ body @ fence @ rest\<close> the opener is the first one of the text and the
  fence is the first one behind the opener; the blocks of the rest follow. A text
  without a block has none.
\<close>

definition ends_first :: "'a list \<Rightarrow> 'a list \<Rightarrow> bool" where
  "ends_first p g \<longleftrightarrow> (\<forall>u v. g @ p = u @ p @ v \<longrightarrow> u = g)"

inductive blocks :: "str \<Rightarrow> str \<Rightarrow> str list \<Rightarrow> bool" for lang :: str where
  no_block: "\<not> has_block lang t \<Longrightarrow> blocks lang t []"
| block: "ends_first (opener lang) gap \<Longrightarrow> ends_first fence body \<Longrightarrow> blocks lang rest bodies \<Longrightarrow>
    blocks lang (gap @ opener lang @ body @ fence @ rest) (body # bodies)"

text \<open>
  The bound the rewards keep: reward \<open>i\<close> lies between 0 and a quarter of the number of
  test cases of record \<open>i\<close>.
\<close>

definition within_quarters :: "real list \<Rightarrow> verification_info list \<Rightarrow> bool" where
  "within_quarters rewards infos \<longleftrightarrow>
     (\<forall>i < length rewards.
        0 \<le> rewards ! i \<and>
        rewards ! i \<le> (if i < length infos then real (length (test_cases (infos ! i))) / 4 else 0))"

section \<open>Example inputs\<close>

text \<open>
  A snippet that prints \<open>1\<close> when its standard input is empty and loops for ever
  otherwise:
  \<^verbatim>\<open>
  import sys
  if sys.stdin.read():
      while True:
          pass
  print(1)
  \<close>
  \<open>prints_one\<close> is what \<^verbatim>\<open>subprocess.run(["python3", "-c", code], ..., timeout=10)\<close> does
  with this snippet: a completed process with the output \<open>1\<close>, or \<^verbatim>\<open>TimeoutExpired\<close>. On
  empty input it is also what the call does with the snippet \<^verbatim>\<open>print(1)\<close>. \<open>basic_case\<close>
  is a test case labelled \<open>basic\<close> that expects \<open>1\<close>.
\<close>

definition loops_on_input :: str where
  "loops_on_input =
     py ''import sys'' @ [newline] @
     py ''if sys.stdin.read():'' @ [newline] @
     py ''    while True:'' @ [newline] @
     py ''        pass'' @ [newline] @
     py ''print(1)''"

definition prints_one :: subprocess where
  "prints_one code inp =
     (if inp = [] then Inr \<lparr>returncode = 0, stdout = py ''1'' @ [newline]\<rparr> else Inl TimeoutExpired)"

definition basic_case :: "str \<Rightarrow> test_case" where
  "basic_case inp = \<lparr>tc_input = inp, tc_output = py ''1'', tc_label = Some (py ''basic'')\<rparr>"

text \<open>
  A record for the language \<open>python\<close>, a completion of one turn, and a sandbox whose first
  request raises while every other request answers 0.25.
\<close>

definition python_info :: "test_case list \<Rightarrow> verification_info" where
  "python_info cases = \<lparr>language = py ''python'', test_cases = cases\<rparr>"

definition answer :: "str \<Rightarrow> completion" where
  "answer t = [\<lparr>role = py ''assistant'', content = t\<rparr>]"

definition first_request_fails :: sandbox where
  "first_request_fails =
     \<lparr>create = None,
      run_code = (\<lambda>i scr lang. if i = 0 then Inl (OtherError (py ''timeout'')) else Inr (TextFloat (1 / 4))),
      kill = None\<rparr>"

text \<open>The text of a fenced code block with the given tag and body.\<close>

definition fenced :: "str \<Rightarrow> str \<Rightarrow> str" where
  "fenced lang body = opener lang @ body @ fence"

section \<open>Properties of the curriculum\<close>

text \<open>
  Claim C6. The allowed labels are \<open>{basic}\<close> before epoch 1, \<open>{basic, medium}\<close> in epoch 1,
  \<open>{basic, medium, high}\<close> in epoch 2 and all four from epoch 3 on, and a later epoch never
  allows fewer labels than an earlier one.
\<close>

theorem label_schedule_sets:
  "(e < 1 \<longrightarrow> set (label_schedule e) = {py ''basic''}) \<and>
   (1 \<le> e \<and> e < 2 \<longrightarrow> set (label_schedule e) = {py ''basic'', py ''medium''}) \<and>
   (2 \<le> e \<and> e < 3 \<longrightarrow> set (label_schedule e) = {py ''basic'', py ''medium'', py ''high''}) \<and>
   (3 \<le> e \<longrightarrow> set (label_schedule e) = {py ''basic'', py ''medium'', py ''high'', py ''edge''}) \<and>
   (\<forall>e'. e \<le> e' \<longrightarrow> set (label_schedule e) \<subseteq> set (label_schedule e'))"
  by (auto simp: label_schedule_def)

theorem label_schedule_sets_witness:
  "set (label_schedule 0) = {py ''basic''} \<and>
   set (label_schedule 1) = {py ''basic'', py ''medium''} \<and>
   set (label_schedule 2) = {py ''basic'', py ''medium'', py ''high''} \<and>
   set (label_schedule 3) = {py ''basic'', py ''medium'', py ''high'', py ''edge''} \<and>
   set (label_schedule 0) \<subseteq> set (label_schedule 3)"
  using label_schedule_sets [of 0] label_schedule_sets [of 1]
    label_schedule_sets [of 2] label_schedule_sets [of 3]
  by simp

section \<open>The value of the evaluation script\<close>

lemma lines_correct_eq:
  "lines_correct ps b = (b \<and> list_all (\<lambda>(l1, l2). strip l1 = strip l2) ps)"
proof (induction ps arbitrary: b)
  case Nil
  show ?case by simp
next
  case (Cons p ps)
  obtain l1 l2 where p: "p = (l1, l2)" by (cases p)
  show ?case unfolding p lines_correct.simps Cons.IH by simp
qed

lemma list_all_zip_map:
  "list_all (\<lambda>(a, b). a = b) (zip (map f xs) (map f ys)) = list_all (\<lambda>(a, b). f a = f b) (zip xs ys)"
  by (simp add: zip_map_map list.pred_map comp_def case_prod_unfold)

lemma weights_get: "(case weights l of None \<Rightarrow> 0 | Some w \<Rightarrow> w) =
  (if l \<in> {py ''basic'', py ''medium'', py ''high'', py ''edge''} then 1 / 4 else 0)"
  by (simp add: weights_def)

lemma weighted_pass_sum_Cons:
  "weighted_pass_sum run code (c # cs) =
     (if case_passes run code c then case_weight c else 0) + weighted_pass_sum run code cs"
  by (simp add: weighted_pass_sum_def)

lemma evaluate_cases_eq:
  "evaluate_cases run code cases p t =
     (case first_fault run code cases of
        Some e \<Rightarrow> Inl e
      | None \<Rightarrow> Inr (p + weighted_pass_sum run code cases))"
proof (induction cases arbitrary: p t)
  case Nil
  show ?case by (simp add: weighted_pass_sum_def)
next
  case (Cons c cs)
  show ?case
  proof (cases "run code (tc_input c)")
    case (Inl e)
    then show ?thesis by (simp add: Let_def)
  next
    case (Inr process)
    have w: "(case weights (strip (case tc_label c of None \<Rightarrow> py ''minimal'' | Some l \<Rightarrow> l)) of
               None \<Rightarrow> 0 | Some w \<Rightarrow> w) = case_weight c"
      unfolding weights_get case_weight_def ..
    have ps: "returncode process = 0 \<Longrightarrow>
        lines_correct (zip (split_on newline (strip (stdout process))) (split_on newline (tc_output c))) True
        \<longleftrightarrow> case_passes run code c"
      "returncode process \<noteq> 0 \<Longrightarrow> \<not> case_passes run code c"
      by (simp_all add: case_passes_def Inr lines_correct_eq list_all_zip_map)
    show ?thesis
    proof (cases "returncode process = 0")
      case True
      with ps(1) [OF True] show ?thesis
        unfolding evaluate_cases.simps Let_def w Inr Cons.IH first_fault.simps weighted_pass_sum_Cons
        by (simp split: option.splits)
    next
      case False
      with ps(2) show ?thesis
        unfolding evaluate_cases.simps Let_def w Inr Cons.IH first_fault.simps weighted_pass_sum_Cons
        by (simp split: option.splits)
    qed
  qed
qed

lemma strip_one: "strip (py ''1'' @ [newline]) = py ''1''" "strip (py ''1'') = py ''1''"
  by (simp_all add: strip_def py_def newline_def isspace_def)

lemma split_one: "split_on newline (py ''1'') = [py ''1'']"
  by (simp add: py_def newline_def)

lemma strip_basic: "strip (py ''basic'') = py ''basic''"
  by (simp add: strip_def py_def isspace_def)

lemma basic_case_input: "tc_input (basic_case inp) = inp"
  by (simp add: basic_case_def)

lemma prints_one_empty: "prints_one code [] = Inr \<lparr>returncode = 0, stdout = py ''1'' @ [newline]\<rparr>"
  by (simp add: prints_one_def)

lemma basic_case_passes: "case_passes prints_one code (basic_case [])"
  by (simp add: case_passes_def prints_one_def basic_case_def strip_one split_one)

lemma basic_case_weight: "case_weight (basic_case inp) = 1 / 4"
  by (simp add: case_weight_def basic_case_def strip_basic)

text \<open>
  Claim C4, amended. When no subprocess call raises, the value of \<^verbatim>\<open>evaluate_code\<close> is the
  sum, not normalised, of the weights of the test cases that pass, in the sense of
  \<open>case_weight\<close> and \<open>case_passes\<close>; when a call raises (the timeout), the script raises
  that exception and has no value.
\<close>

theorem evaluate_code_weighted_sum:
  "evaluate_code run code cases =
     (case first_fault run code cases of
        Some e \<Rightarrow> Inl e
      | None \<Rightarrow> Inr (weighted_pass_sum run code cases))"
  by (simp add: evaluate_code_def evaluate_cases_eq split: option.splits)

theorem evaluate_code_weighted_sum_witness:
  "evaluate_code prints_one (py ''print(1)'') [basic_case [], basic_case []] = Inr (1 / 2)"
  using evaluate_code_weighted_sum [of prints_one "py ''print(1)''" "[basic_case [], basic_case []]"]
  by (simp add: weighted_pass_sum_def basic_case_passes basic_case_weight prints_one_empty basic_case_input)

text \<open>
  The claim as stated fails. The snippet is \<open>loops_on_input\<close>; of two \<open>basic\<close> cases the
  first, with empty input, passes and the second, with input \<open>x\<close>, runs into the timeout.
  The sum over the passing cases is 0.25, and the script raises \<^verbatim>\<open>TimeoutExpired\<close>.
\<close>

theorem evaluate_code_timeout_counterexample:
  "evaluate_code prints_one loops_on_input [basic_case [], basic_case (py ''x'')] = Inl TimeoutExpired \<and>
   weighted_pass_sum prints_one loops_on_input [basic_case [], basic_case (py ''x'')] = 1 / 4"
proof
  show "evaluate_code prints_one loops_on_input [basic_case [], basic_case (py ''x'')] = Inl TimeoutExpired"
    by (simp add: evaluate_code_def Let_def prints_one_def basic_case_def py_def)
  have "\<not> case_passes prints_one loops_on_input (basic_case (py ''x''))"
    by (simp add: case_passes_def prints_one_def basic_case_def py_def)
  then show "weighted_pass_sum prints_one loops_on_input [basic_case [], basic_case (py ''x'')] = 1 / 4"
    by (simp add: weighted_pass_sum_def basic_case_passes basic_case_weight)
qed

section \<open>The reward function and the dispatcher\<close>

lemma code_snippets_total:
  "(\<forall>c \<in> set completions. c \<noteq> []) \<Longrightarrow>
   code_snippets completions = Inr (map (\<lambda>c. extract_code (content (last c)) (py ''python'')) completions)"
  by (induction completions) simp_all

lemma code_snippets_fault:
  "(\<exists>c \<in> set completions. c = []) \<Longrightarrow> code_snippets completions = Inl IndexError"
proof (induction completions)
  case Nil
  then show ?case by simp
next
  case (Cons c cs)
  show ?case
  proof (cases "c = []")
    case True
    then show ?thesis by simp
  next
    case False
    with Cons.prems have "\<exists>c \<in> set cs. c = []" by simp
    from Cons.IH [OF this] False show ?thesis by simp
  qed
qed

lemma gather_Inr_length: "gather ts = Inr vs \<Longrightarrow> length vs = length ts"
proof (induction ts arbitrary: vs rule: gather.induct)
  case 1
  then show ?case by simp
next
  case (2 e ts)
  then show ?case by simp
next
  case (3 v ts)
  from "3.prems" obtain ws where ws: "gather ts = Inr ws" and vs: "vs = v # ws"
    by (simp split: sum.splits)
  from "3.IH" [OF ws] vs show ?case by simp
qed

lemma gather_Inr_nth: "gather ts = Inr vs \<Longrightarrow> i < length ts \<Longrightarrow> ts ! i = Inr (vs ! i)"
proof (induction ts arbitrary: vs i rule: gather.induct)
  case 1
  then show ?case by simp
next
  case (2 e ts)
  then show ?case by simp
next
  case (3 v ts)
  from "3.prems" obtain ws where ws: "gather ts = Inr ws" and vs: "vs = v # ws"
    by (simp split: sum.splits)
  show ?case
  proof (cases i)
    case 0
    with vs show ?thesis by simp
  next
    case (Suc j)
    with "3.prems" have "j < length ts" by simp
    from "3.IH" [OF ws this] Suc vs show ?thesis by simp
  qed
qed

lemma gather_Inl_mem: "gather ts = Inl e \<Longrightarrow> Inl e \<in> set ts"
proof (induction ts rule: gather.induct)
  case 1
  then show ?case by simp
next
  case (2 e' ts)
  then show ?case by simp
next
  case (3 v ts)
  then show ?case by (simp split: sum.splits)
qed

lemma length_build_scripts:
  "length (build_scripts snippets infos) = min (length snippets) (length infos)"
  by (simp add: build_scripts_def)

lemma run_async_length:
  "run_async sbx scripts lang = (Inr rewards, evs) \<Longrightarrow> length rewards = length scripts"
  by (auto simp: run_async_def Let_def split: option.splits sum.splits dest!: gather_Inr_length)

lemma reward_unfold:
  assumes "code_snippets completions = Inr snippets"
    and "list_all (\<lambda>v. language v = language v0) (v0 # rest)"
  shows "code_based_on_unittests_reward sbx True completions (v0 # rest) =
     (case run_async sbx (build_scripts snippets (v0 # rest)) (language v0) of
        (Inl e, evs) \<Rightarrow> (Inr (replicate (length completions) 0), evs)
      | (Inr rewards, evs) \<Rightarrow> (Inr rewards, evs))"
  unfolding code_based_on_unittests_reward_def run_async_from_sync_def Let_def assms(1)
  using assms(2) by simp

text \<open>Evaluating \<^verbatim>\<open>findall\<close> on a given text.\<close>

lemma findall_Nil: "findall lang [] = []"
  by (simp add: findall.simps match_at_def starts_with_def opener_def)

lemma findall_no_opener:
  "\<not> starts_with (opener lang) (x # xs) \<Longrightarrow> findall lang (x # xs) = findall lang xs"
  by (subst findall.simps) (simp add: match_at_def)

lemma findall_match:
  "match_at lang s = Some (body, rest) \<Longrightarrow> findall lang s = body # findall lang rest"
  by (subst findall.simps) simp

lemma starts_with_simps:
  "starts_with [] s"
  "\<not> starts_with (p # ps) []"
  "starts_with (p # ps) (x # xs) \<longleftrightarrow> p = x \<and> starts_with ps xs"
  by (auto simp: starts_with_def)

lemma extract_pass: "extract_code (py ''pass'') (py ''python'') = []"
  by (simp add: extract_code_def py_def findall_no_opener findall_Nil opener_def fence_def starts_with_simps)

text \<open>
  Claim C1, amended. When the sandbox capability is available, \<^verbatim>\<open>verification_info\<close> is not
  empty and has at least as many records as there are completions, all records declare
  the same language and every completion has a turn, the reward function returns a list
  as long as \<^verbatim>\<open>completions\<close>; when the dispatch raises, the list is all zeros.
\<close>

theorem reward_length:
  assumes "infos \<noteq> []"
    and "\<forall>v \<in> set infos. \<forall>w \<in> set infos. language v = language w"
    and "\<forall>c \<in> set completions. c \<noteq> []"
    and "length completions \<le> length infos"
  shows "\<exists>rewards evs.
      code_based_on_unittests_reward sbx True completions infos = (Inr rewards, evs) \<and>
      length rewards = length completions \<and>
      ((\<exists>e. fst (run_async_from_sync sbx
                (build_scripts (map (\<lambda>c. extract_code (content (last c)) (py ''python'')) completions) infos)
                (language (hd infos))) = Inl e)
         \<longrightarrow> rewards = replicate (length completions) 0)"
proof -
  define snippets where "snippets = map (\<lambda>c. extract_code (content (last c)) (py ''python'')) completions"
  from assms(1) obtain v0 rest where infos: "infos = v0 # rest"
    by (cases infos) simp_all
  define scripts where "scripts = build_scripts snippets (v0 # rest)"
  have same: "list_all (\<lambda>v. language v = language v0) (v0 # rest)"
    unfolding list_all_iff
  proof
    fix v assume "v \<in> set (v0 # rest)"
    moreover have "v0 \<in> set (v0 # rest)" by simp
    ultimately show "language v = language v0"
      using assms(2) unfolding infos by blast
  qed
  have snip: "code_snippets completions = Inr snippets"
    unfolding snippets_def by (rule code_snippets_total [OF assms(3)])
  have len: "length scripts = length completions"
    using assms(4) unfolding scripts_def infos snippets_def length_build_scripts by simp
  obtain res evs where run: "run_async sbx scripts (language v0) = (res, evs)"
    by (cases "run_async sbx scripts (language v0)")
  note cbr = reward_unfold [OF snip same, of sbx, folded scripts_def, unfolded run]
  have disp: "fst (run_async_from_sync sbx
                (build_scripts (map (\<lambda>c. extract_code (content (last c)) (py ''python'')) completions) infos)
                (language (hd infos))) = res"
    unfolding run_async_from_sync_def infos list.sel snippets_def [symmetric] scripts_def [symmetric] run
    by simp
  show ?thesis
  proof (cases res)
    case (Inl e)
    from cbr have "code_based_on_unittests_reward sbx True completions infos =
        (Inr (replicate (length completions) 0), evs)"
      unfolding Inl infos by simp
    then show ?thesis unfolding disp by simp
  next
    case (Inr rewards)
    from run have "length rewards = length scripts"
      unfolding Inr by (rule run_async_length)
    with len have l: "length rewards = length completions" by simp
    from cbr have "code_based_on_unittests_reward sbx True completions infos = (Inr rewards, evs)"
      unfolding Inr infos by simp
    with l show ?thesis unfolding disp Inr by simp
  qed
qed

theorem reward_length_witness:
  "\<exists>rewards evs.
      code_based_on_unittests_reward (payload_sandbox prints_one) True [answer (py ''pass'')] [python_info []]
        = (Inr rewards, evs) \<and>
      length rewards = length [answer (py ''pass'')]"
proof -
  have "\<exists>rewards evs.
      code_based_on_unittests_reward (payload_sandbox prints_one) True [answer (py ''pass'')] [python_info []]
        = (Inr rewards, evs) \<and>
      length rewards = length [answer (py ''pass'')] \<and>
      ((\<exists>e. fst (run_async_from_sync (payload_sandbox prints_one)
                (build_scripts (map (\<lambda>c. extract_code (content (last c)) (py ''python'')) [answer (py ''pass'')])
                   [python_info []])
                (language (hd [python_info []]))) = Inl e)
         \<longrightarrow> rewards = replicate (length [answer (py ''pass'')]) 0)"
    by (rule reward_length) (simp_all add: answer_def)
  then show ?thesis by blast
qed

text \<open>
  The claim as stated fails for the empty batch: every record of the empty
  \<^verbatim>\<open>verification_info\<close> declares the same language, and the function raises instead of
  returning the empty list.
\<close>

theorem empty_batch_counterexample:
  "code_based_on_unittests_reward (payload_sandbox prints_one) True [] [] = (Inl IndexError, [])"
  by (simp add: code_based_on_unittests_reward_def build_scripts_def)

text \<open>
  Claim C10. With the capability available and both lists empty, the reward function
  raises \<^verbatim>\<open>IndexError\<close>, from \<^verbatim>\<open>verification_info[0]\<close>, and makes no call to the sandbox.
\<close>

theorem empty_batch_index_error:
  "code_based_on_unittests_reward sbx True [] [] = (Inl IndexError, [])"
  by (simp add: code_based_on_unittests_reward_def build_scripts_def)

theorem empty_batch_index_error_witness:
  "code_based_on_unittests_reward first_request_fails True [] [] = (Inl IndexError, [])"
  by (rule empty_batch_index_error)



text \<open>
  The capability is checked first: without it the function raises \<^verbatim>\<open>ImportError\<close> and
  makes no call to the sandbox, whatever the batch is.
\<close>

lemma unavailable_import_error:
  "code_based_on_unittests_reward sbx False completions infos = (Inl ImportError, [])"
  by (simp add: code_based_on_unittests_reward_def)

text \<open>
  What a dispatch does once the sandbox is created: when every request answers, each
  script gets the reward its own answer gives and \<^verbatim>\<open>kill\<close> is the last call; when a
  request raises, all requests are made, the dispatch raises and \<^verbatim>\<open>kill\<close> is not called.
\<close>

lemma gather_map_Inr: "gather (map Inr vs) = Inr vs"
  by (induction vs) simp_all

lemma run_script_answer:
  "run_code sbx i scr lang = Inr t \<Longrightarrow>
   run_script sbx i scr lang = Inr (case t of TextFloat v \<Rightarrow> v | TextNone \<Rightarrow> 0 | TextNotFloat u \<Rightarrow> 0)"
  by (simp add: run_script_def split: exec_text.splits)

lemma run_async_answers:
  assumes "create sbx = None" and "kill sbx = None"
    and "length texts = length scripts"
    and "\<forall>i < length scripts. run_code sbx i (scripts ! i) lang = Inr (texts ! i)"
  shows "run_async sbx scripts lang =
    (Inr (map (\<lambda>t. case t of TextFloat v \<Rightarrow> v | TextNone \<Rightarrow> 0 | TextNotFloat u \<Rightarrow> 0) texts),
     Create # map (\<lambda>scr. RunCode scr lang) scripts @ [Kill])"
proof -
  let ?reward = "\<lambda>t. case t of TextFloat v \<Rightarrow> v | TextNone \<Rightarrow> 0 | TextNotFloat u \<Rightarrow> 0"
  have "map (\<lambda>(i, scr). run_script sbx i scr lang) (enumerate 0 scripts) = map Inr (map ?reward texts)"
  proof (rule nth_equalityI)
    show "length (map (\<lambda>(i, scr). run_script sbx i scr lang) (enumerate 0 scripts))
        = length (map Inr (map ?reward texts))"
      by (simp add: assms(3))
  next
    fix i assume "i < length (map (\<lambda>(i, scr). run_script sbx i scr lang) (enumerate 0 scripts))"
    then have i: "i < length scripts" by simp
    with assms(4) have "run_code sbx i (scripts ! i) lang = Inr (texts ! i)" by simp
    from run_script_answer [OF this] i assms(3)
    show "map (\<lambda>(i, scr). run_script sbx i scr lang) (enumerate 0 scripts) ! i
        = map Inr (map ?reward texts) ! i"
      by (simp add: nth_enumerate_eq)
  qed
  then have "gather (map (\<lambda>(i, scr). run_script sbx i scr lang) (enumerate 0 scripts))
      = Inr (map ?reward texts)"
    by (simp only: gather_map_Inr)
  with assms(1,2) show ?thesis by (simp add: run_async_def)
qed

lemma run_async_fault:
  assumes "create sbx = None"
    and "i < length scripts" and "run_code sbx i (scripts ! i) lang = Inl e"
  shows "\<exists>e'. run_async sbx scripts lang = (Inl e', Create # map (\<lambda>scr. RunCode scr lang) scripts)"
proof -
  let ?tasks = "map (\<lambda>(i, scr). run_script sbx i scr lang) (enumerate 0 scripts)"
  have "?tasks ! i = Inl e"
    using assms(2,3) by (simp add: nth_enumerate_eq run_script_def)
  have "\<exists>e'. gather ?tasks = Inl e'"
  proof (cases "gather ?tasks")
    case (Inl e')
    then show ?thesis by blast
  next
    case (Inr vs)
    from gather_Inr_nth [OF Inr, of i] assms(2) \<open>?tasks ! i = Inl e\<close> show ?thesis by simp
  qed
  then obtain e' where "gather ?tasks = Inl e'" ..
  with assms(1) have "run_async sbx scripts lang = (Inl e', Create # map (\<lambda>scr. RunCode scr lang) scripts)"
    by (simp add: run_async_def)
  then show ?thesis ..
qed

text \<open>
  Claim C2 says that a request that raises costs only its own script the reward. In the
  code the second request of this dispatch would earn 0.25, the first raises, and the
  exception leaves \<^verbatim>\<open>run_script\<close> and \<^verbatim>\<open>gather\<close>: \<^verbatim>\<open>run_async\<close> raises, and the reward
  function answers with zeros for both scripts.
\<close>

theorem request_fault_aborts_dispatch:
  "run_script first_request_fails 1 s1 lang = Inr (1 / 4) \<and>
   run_async first_request_fails [s0, s1] lang
     = (Inl (OtherError (py ''timeout'')), [Create, RunCode s0 lang, RunCode s1 lang]) \<and>
   code_based_on_unittests_reward first_request_fails True
       [answer (py ''pass''), answer (py ''pass'')] [python_info [], python_info []]
     = (Inr [0, 0],
        [Create,
         RunCode \<lparr>script_code = [], script_test_cases = []\<rparr> (py ''python''),
         RunCode \<lparr>script_code = [], script_test_cases = []\<rparr> (py ''python'')])"
proof (intro conjI)
  show "run_script first_request_fails 1 s1 lang = Inr (1 / 4)"
    by (simp add: run_script_def first_request_fails_def)
  show ra: "run_async first_request_fails [s0, s1] lang
     = (Inl (OtherError (py ''timeout'')), [Create, RunCode s0 lang, RunCode s1 lang])" for s0 s1 lang
    by (simp add: run_async_def run_script_def first_request_fails_def enumerate_eq_zip)
  have snip: "code_snippets [answer (py ''pass''), answer (py ''pass'')] = Inr [[], []]"
    by (simp add: answer_def extract_pass)
  show "code_based_on_unittests_reward first_request_fails True
       [answer (py ''pass''), answer (py ''pass'')] [python_info [], python_info []]
     = (Inr [0, 0],
        [Create,
         RunCode \<lparr>script_code = [], script_test_cases = []\<rparr> (py ''python''),
         RunCode \<lparr>script_code = [], script_test_cases = []\<rparr> (py ''python'')])"
    unfolding code_based_on_unittests_reward_def snip Let_def run_async_from_sync_def
    by (simp add: build_scripts_def python_info_def ra)
qed

text \<open>
  Claim C3 says that the sandbox is destroyed once on every path on which it was created.
  In the same dispatch the sandbox is created, both requests are made, and \<^verbatim>\<open>kill\<close> is
  not called.
\<close>

theorem request_fault_skips_kill:
  "create first_request_fails = None \<and>
   count_list (snd (run_async first_request_fails [s0, s1] lang)) Kill = 0"
  by (simp add: run_async_def run_script_def first_request_fails_def enumerate_eq_zip)

section \<open>The curriculum gate\<close>

lemma label_schedule_subset:
  "set (label_schedule e) \<subseteq> {py ''basic'', py ''medium'', py ''high'', py ''edge''}"
  by (auto simp: label_schedule_def)

lemma minimal_not_allowed: "py ''minimal'' \<notin> set (label_schedule e)"
  by (simp add: label_schedule_def py_def)

lemma allowed_not_blank: "l \<in> set (label_schedule e) \<Longrightarrow> strip l \<noteq> []"
proof -
  assume "l \<in> set (label_schedule e)"
  with label_schedule_subset [of e]
  have "l = py ''basic'' \<or> l = py ''medium'' \<or> l = py ''high'' \<or> l = py ''edge''" by auto
  moreover have "strip (py ''basic'') \<noteq> []" "strip (py ''medium'') \<noteq> []"
    "strip (py ''high'') \<noteq> []" "strip (py ''edge'') \<noteq> []"
    by (simp_all add: strip_def py_def isspace_def)
  ultimately show ?thesis by auto
qed

lemma strip_Nil: "strip [] = []"
  by (simp add: strip_def)

lemma resolved_label_agree:
  "label_or_minimal c \<in> set (label_schedule e) \<longleftrightarrow> spec_resolved_label c \<in> set (label_schedule e)"
proof (cases "tc_label c")
  case None
  then show ?thesis by (simp add: label_or_minimal_def spec_resolved_label_def)
next
  case (Some l)
  show ?thesis
  proof (cases "strip l = []")
    case True
    then have "l \<notin> set (label_schedule e)" using allowed_not_blank by blast
    with True Some show ?thesis
      by (simp add: label_or_minimal_def spec_resolved_label_def minimal_not_allowed)
  next
    case False
    then have "l \<noteq> []" using strip_Nil by auto
    with False Some show ?thesis
      by (simp add: label_or_minimal_def spec_resolved_label_def)
  qed
qed

lemma filter_test_cases_spec:
  "test_cases (filter_test_cases (label_schedule e) info) =
     filter (\<lambda>c. spec_resolved_label c \<in> set (label_schedule e)) (test_cases info)"
  by (simp add: filter_test_cases_def resolved_label_agree)

lemma filter_test_cases_language:
  "language (filter_test_cases allowed info) = language info"
  by (simp add: filter_test_cases_def)

lemma kept_case_labelled:
  assumes "spec_resolved_label c \<in> set (label_schedule e)"
  shows "tc_label c \<noteq> None \<and> tc_label c \<noteq> Some (py ''minimal'')"
proof (cases "tc_label c")
  case None
  with assms show ?thesis by (simp add: spec_resolved_label_def minimal_not_allowed)
next
  case (Some l)
  with assms have "l \<noteq> py ''minimal''"
    by (auto simp: spec_resolved_label_def minimal_not_allowed split: if_splits)
  with Some show ?thesis by simp
qed

text \<open>
  Claim C5. For every epoch the curriculum-aware function leaves each record with its
  language and with exactly those of its test cases, in their order, whose label
  (\<open>minimal\<close> when absent or blank) is allowed in the epoch; a test case without label
  or labelled \<open>minimal\<close> is never kept; and the rewards are computed from the records so
  filtered.
\<close>

theorem curriculum_filters_test_cases:
  fixes sbx :: sandbox and available :: bool and completions :: "completion list"
    and infos :: "verification_info list" and epoch :: int
  defines "infos' \<equiv> snd (curriculum_aware_reward_fn sbx available completions infos epoch)"
  shows "length infos' = length infos \<and>
    (\<forall>i < length infos.
       language (infos' ! i) = language (infos ! i) \<and>
       test_cases (infos' ! i) =
         filter (\<lambda>c. spec_resolved_label c \<in> set (label_schedule epoch)) (test_cases (infos ! i)) \<and>
       (\<forall>c \<in> set (test_cases (infos' ! i)).
          tc_label c \<noteq> None \<and> tc_label c \<noteq> Some (py ''minimal''))) \<and>
    fst (curriculum_aware_reward_fn sbx available completions infos epoch) =
      code_based_on_unittests_reward sbx available completions infos'"
proof -
  have eq: "infos' = map (filter_test_cases (label_schedule epoch)) infos"
    by (simp add: infos'_def curriculum_aware_reward_fn_def Let_def)
  have "length infos' = length infos" by (simp add: eq)
  moreover have "\<forall>i < length infos.
       language (infos' ! i) = language (infos ! i) \<and>
       test_cases (infos' ! i) =
         filter (\<lambda>c. spec_resolved_label c \<in> set (label_schedule epoch)) (test_cases (infos ! i)) \<and>
       (\<forall>c \<in> set (test_cases (infos' ! i)).
          tc_label c \<noteq> None \<and> tc_label c \<noteq> Some (py ''minimal''))"
  proof (intro allI impI conjI ballI)
    fix i assume i: "i < length infos"
    then have nth: "infos' ! i = filter_test_cases (label_schedule epoch) (infos ! i)"
      by (simp add: eq)
    show "language (infos' ! i) = language (infos ! i)"
      by (simp add: nth filter_test_cases_language)
    show tc: "test_cases (infos' ! i) =
         filter (\<lambda>c. spec_resolved_label c \<in> set (label_schedule epoch)) (test_cases (infos ! i))"
      by (simp add: nth filter_test_cases_spec)
    fix c assume "c \<in> set (test_cases (infos' ! i))"
    then have "spec_resolved_label c \<in> set (label_schedule epoch)"
      by (simp add: tc)
    from kept_case_labelled [OF this]
    show "tc_label c \<noteq> None" and "tc_label c \<noteq> Some (py ''minimal'')" by simp_all
  qed
  moreover have "fst (curriculum_aware_reward_fn sbx available completions infos epoch) =
      code_based_on_unittests_reward sbx available completions infos'"
    by (simp add: eq curriculum_aware_reward_fn_def Let_def)
  ultimately show ?thesis by blast
qed

theorem curriculum_filters_test_cases_witness:
  "test_cases (snd (curriculum_aware_reward_fn first_request_fails True [answer (py ''pass'')]
      [python_info [basic_case [],
                    \<lparr>tc_input = [], tc_output = [], tc_label = None\<rparr>,
                    \<lparr>tc_input = [], tc_output = [], tc_label = Some (py ''edge'')\<rparr>]] 0) ! 0)
   = [basic_case []]"
  using curriculum_filters_test_cases [where infos = "[python_info [basic_case [],
                    \<lparr>tc_input = [], tc_output = [], tc_label = None\<rparr>,
                    \<lparr>tc_input = [], tc_output = [], tc_label = Some (py ''edge'')\<rparr>]]"
      and epoch = 0 and sbx = first_request_fails and available = True
      and completions = "[answer (py ''pass'')]"]
  by (simp add: python_info_def spec_resolved_label_def basic_case_def strip_def py_def isspace_def
      label_schedule_def)

section \<open>Extraction of the code block\<close>

lemma starts_with_append: "starts_with p s \<longleftrightarrow> (\<exists>r. s = p @ r)"
proof
  assume "starts_with p s"
  then have "s = p @ drop (length p) s"
    unfolding starts_with_def by (metis append_take_drop_id)
  then show "\<exists>r. s = p @ r" ..
next
  assume "\<exists>r. s = p @ r"
  then show "starts_with p s" by (auto simp: starts_with_def)
qed

lemma split_at_first_Some:
  "split_at_first pat s = Some (b, r) \<Longrightarrow> s = b @ pat @ r"
proof (induction s arbitrary: b r)
  case Nil
  then show ?case by (simp split: if_splits)
next
  case (Cons x xs)
  show ?case
  proof (cases "starts_with pat (x # xs)")
    case True
    with Cons.prems have "b = []" and r: "r = drop (length pat) (x # xs)" by simp_all
    moreover from True have "x # xs = pat @ drop (length pat) (x # xs)"
      unfolding starts_with_def by (metis append_take_drop_id)
    ultimately show ?thesis by simp
  next
    case False
    with Cons.prems obtain b' where "split_at_first pat xs = Some (b', r)" and "b = x # b'"
      by (auto split: option.splits)
    with Cons.IH [of b' r] show ?thesis by simp
  qed
qed

lemma split_at_first_None:
  "split_at_first pat s = None \<Longrightarrow> s \<noteq> b @ pat @ r"
proof (induction s arbitrary: b)
  case Nil
  then show ?case by (simp split: if_splits)
next
  case (Cons x xs)
  from Cons.prems have ns: "\<not> starts_with pat (x # xs)" and rec: "split_at_first pat xs = None"
    by (auto split: if_splits option.splits)
  show ?case
  proof (cases b)
    case Nil
    with ns show ?thesis by (auto simp: starts_with_append)
  next
    case (Cons y b')
    with Cons.IH [OF rec, of b'] show ?thesis by auto
  qed
qed

lemma match_at_Some:
  "match_at lang s = Some (body, rest) \<Longrightarrow> s = opener lang @ body @ fence @ rest"
proof -
  assume m: "match_at lang s = Some (body, rest)"
  then have sw: "starts_with (opener lang) s"
    and sp: "split_at_first fence (drop (length (opener lang)) s) = Some (body, rest)"
    by (simp_all add: match_at_def split: if_splits)
  from sw have "s = opener lang @ drop (length (opener lang)) s"
    unfolding starts_with_def by (metis append_take_drop_id)
  with split_at_first_Some [OF sp] show ?thesis by simp
qed

lemma match_at_None:
  "match_at lang s = None \<Longrightarrow> s \<noteq> opener lang @ body @ fence @ rest"
proof
  assume m: "match_at lang s = None" and s: "s = opener lang @ body @ fence @ rest"
  from s have "starts_with (opener lang) s" by (auto simp: starts_with_append)
  with m have "split_at_first fence (drop (length (opener lang)) s) = None"
    by (simp add: match_at_def)
  from split_at_first_None [OF this, of body rest] s show False by simp
qed

lemma findall_Nil_iff: "findall lang s = [] \<longleftrightarrow> \<not> has_block lang s"
proof (induction s)
  case Nil
  have "\<not> has_block lang []" by (simp add: has_block_def opener_def)
  then show ?case by (simp add: findall_Nil)
next
  case (Cons x xs)
  show ?case
  proof (cases "match_at lang (x # xs)")
    case (Some m)
    obtain body rest where m: "m = (body, rest)" by (cases m)
    from match_at_Some [OF Some [unfolded m]]
    have "has_block lang (x # xs)"
      unfolding has_block_def by (metis append_Nil)
    moreover have "findall lang (x # xs) \<noteq> []"
      by (simp add: findall_match [OF Some [unfolded m]])
    ultimately show ?thesis by simp
  next
    case None
    then have f: "findall lang (x # xs) = findall lang xs"
      by (subst findall.simps) simp
    have "has_block lang (x # xs) \<longleftrightarrow> has_block lang xs"
    proof
      assume "has_block lang (x # xs)"
      then obtain pre body post where s: "x # xs = pre @ opener lang @ body @ fence @ post"
        unfolding has_block_def by blast
      show "has_block lang xs"
      proof (cases pre)
        case Nil
        with s match_at_None [OF None, of body post] show ?thesis by simp
      next
        case (Cons y pre')
        with s have "xs = pre' @ opener lang @ body @ fence @ post" by simp
        then show ?thesis unfolding has_block_def by blast
      qed
    next
      assume "has_block lang xs"
      then obtain pre body post where "xs = pre @ opener lang @ body @ fence @ post"
        unfolding has_block_def by blast
      then have "x # xs = (x # pre) @ opener lang @ body @ fence @ post" by simp
      then show "has_block lang (x # xs)" unfolding has_block_def by blast
    qed
    with f Cons.IH show ?thesis by simp
  qed
qed

lemma extract_fenced_javascript:
  "extract_code (fenced (py ''javascript'') (py ''x'')) (py ''javascript'') = py ''x''"
proof -
  have m: "match_at (py ''javascript'') (fenced (py ''javascript'') (py ''x'')) = Some (py ''x'', [])"
    by (simp add: match_at_def fenced_def opener_def fence_def py_def newline_def starts_with_simps)
  show ?thesis
    by (simp add: extract_code_def findall_match [OF m] findall_Nil)
qed

lemma extract_python_from_javascript:
  "extract_code (fenced (py ''javascript'') (py ''x'')) (py ''python'') = []"
  by (simp add: extract_code_def fenced_def opener_def fence_def py_def newline_def
      findall_no_opener findall_Nil starts_with_simps)

text \<open>The matches of \<^verbatim>\<open>findall\<close> are the blocks of the text.\<close>

lemma ends_first_Nil: "ends_first p []"
proof -
  have "u = []" if "p = u @ p @ v" for u v
  proof -
    from that have "length p = length u + length p + length v"
      by (metis length_append add.assoc)
    then show ?thesis by simp
  qed
  then show ?thesis by (simp add: ends_first_def)
qed

lemma ends_first_tail: "ends_first p (x # g) \<Longrightarrow> ends_first p g"
  unfolding ends_first_def
proof (intro allI impI)
  fix u v
  assume a: "\<forall>u v. (x # g) @ p = u @ p @ v \<longrightarrow> u = x # g" and e: "g @ p = u @ p @ v"
  from e have "(x # g) @ p = (x # u) @ p @ v" by simp
  with a have "x # u = x # g" by blast
  then show "u = g" by simp
qed

lemma starts_with_prefix:
  assumes "starts_with p (s @ r)" and "length p \<le> length s"
  shows "\<exists>v. s = p @ v"
proof -
  from assms(1) have "take (length p) (s @ r) = p" by (simp add: starts_with_def)
  with assms(2) have "take (length p) s = p" by simp
  then have "s = p @ drop (length p) s" by (metis append_take_drop_id)
  then show ?thesis ..
qed

lemma ends_first_not_starts:
  assumes "ends_first p (x # g)"
  shows "\<not> starts_with p ((x # g) @ p @ r)"
proof
  assume "starts_with p ((x # g) @ p @ r)"
  then have "starts_with p (((x # g) @ p) @ r)" by simp
  from starts_with_prefix [OF this] obtain v where "(x # g) @ p = p @ v" by auto
  then have "(x # g) @ p = [] @ p @ v" by simp
  with assms have "[] = x # g" unfolding ends_first_def by blast
  then show False by simp
qed

lemma ends_first_Cons:
  assumes "ends_first p g" and "\<not> starts_with p ((x # g) @ p @ r)"
  shows "ends_first p (x # g)"
  unfolding ends_first_def
proof (intro allI impI)
  fix u v assume e: "(x # g) @ p = u @ p @ v"
  show "u = x # g"
  proof (cases u)
    case Nil
    with e have eq: "(x # g) @ p @ r = p @ (v @ r)" by (metis append_Nil append.assoc)
    have "starts_with p (p @ (v @ r))" by (simp add: starts_with_def)
    then have "starts_with p ((x # g) @ p @ r)" unfolding eq .
    with assms(2) show ?thesis by blast
  next
    case (Cons y u')
    with e have "y = x" and "g @ p = u' @ p @ v" by simp_all
    with assms(1) have "u' = g" unfolding ends_first_def by blast
    with Cons \<open>y = x\<close> show ?thesis by simp
  qed
qed

lemma split_at_first_ends_first:
  "split_at_first pat s = Some (b, r) \<Longrightarrow> ends_first pat b"
proof (induction s arbitrary: b r)
  case Nil
  then have "b = []" by (simp split: if_splits)
  then show ?case by (simp add: ends_first_Nil)
next
  case (Cons x xs)
  show ?case
  proof (cases "starts_with pat (x # xs)")
    case True
    with Cons.prems have "b = []" by simp
    then show ?thesis by (simp add: ends_first_Nil)
  next
    case False
    with Cons.prems obtain b' where sp: "split_at_first pat xs = Some (b', r)" and b: "b = x # b'"
      by (auto split: option.splits)
    from split_at_first_Some [OF sp] have xs: "xs = b' @ pat @ r" .
    from False have "\<not> starts_with pat ((x # b') @ pat @ r)" by (simp add: xs)
    from ends_first_Cons [OF Cons.IH [OF sp] this] b show ?thesis by simp
  qed
qed

lemma split_at_first_first:
  "ends_first pat b \<Longrightarrow> split_at_first pat (b @ pat @ r) = Some (b, r)"
proof (induction b)
  case Nil
  show ?case
  proof (cases "pat @ r")
    case Nil
    then show ?thesis by simp
  next
    case (Cons x xs)
    have "starts_with pat (pat @ r)" by (simp add: starts_with_def)
    then have "split_at_first pat (pat @ r) = Some ([], drop (length pat) (pat @ r))"
      unfolding Cons by simp
    then show ?thesis by simp
  qed
next
  case (Cons x b')
  from ends_first_not_starts [OF Cons.prems] have "\<not> starts_with pat (x # b' @ pat @ r)" by simp
  moreover from Cons.IH [OF ends_first_tail [OF Cons.prems]]
  have "split_at_first pat (b' @ pat @ r) = Some (b', r)" .
  ultimately show ?case by simp
qed

lemma match_at_first:
  assumes "ends_first fence body"
  shows "match_at lang (opener lang @ body @ fence @ rest) = Some (body, rest)"
proof -
  have "starts_with (opener lang) (opener lang @ body @ fence @ rest)"
    by (simp add: starts_with_def)
  moreover have "drop (length (opener lang)) (opener lang @ body @ fence @ rest) = body @ fence @ rest"
    by simp
  ultimately show ?thesis
    unfolding match_at_def by (simp only: split_at_first_first [OF assms] if_True)
qed

lemma findall_gap:
  assumes "ends_first (opener lang) gap" and "ends_first fence body"
  shows "findall lang (gap @ opener lang @ body @ fence @ rest) = body # findall lang rest"
  using assms(1)
proof (induction gap)
  case Nil
  from findall_match [OF match_at_first [OF assms(2)]] show ?case by simp
next
  case (Cons x g)
  from ends_first_not_starts [OF Cons.prems]
  have "\<not> starts_with (opener lang) (x # (g @ opener lang @ body @ fence @ rest))" by simp
  from findall_no_opener [OF this] Cons.IH [OF ends_first_tail [OF Cons.prems]]
  show ?case by simp
qed

lemma blocks_findall: "blocks lang t bs \<Longrightarrow> findall lang t = bs"
proof (induction rule: blocks.induct)
  case (no_block t)
  then show ?case by (simp add: findall_Nil_iff)
next
  case (block gap body rest bodies)
  from findall_gap [OF block.hyps(1,2)] block.IH show ?case by simp
qed

lemma blocks_step:
  assumes "match_at lang (x # xs) = None" and "blocks lang xs bs"
  shows "blocks lang (x # xs) bs"
  using assms(2)
proof (cases rule: blocks.cases)
  case no_block
  then have "findall lang xs = []" by (simp add: findall_Nil_iff)
  moreover from assms(1) have "findall lang (x # xs) = findall lang xs"
    by (subst findall.simps) simp
  ultimately have "findall lang (x # xs) = []" by simp
  then have "\<not> has_block lang (x # xs)" by (rule findall_Nil_iff [THEN iffD1])
  with no_block show ?thesis by (simp add: blocks.no_block)
next
  case (block gap body rest bodies)
  have ns: "\<not> starts_with (opener lang) ((x # gap) @ opener lang @ body @ fence @ rest)"
  proof
    assume "starts_with (opener lang) ((x # gap) @ opener lang @ body @ fence @ rest)"
    then have "starts_with (opener lang) (((x # gap) @ opener lang @ body) @ fence @ rest)" by simp
    moreover have "length (opener lang) \<le> length ((x # gap) @ opener lang @ body)" by simp
    ultimately obtain v where "(x # gap) @ opener lang @ body = opener lang @ v"
      using starts_with_prefix by blast
    then have "((x # gap) @ opener lang @ body) @ fence @ rest = (opener lang @ v) @ fence @ rest"
      by (rule arg_cong)
    then have "x # xs = opener lang @ v @ fence @ rest" by (simp add: block(1))
    with match_at_None [OF assms(1)] show False by blast
  qed
  from ends_first_Cons [OF block(3) ns] have "ends_first (opener lang) (x # gap)" .
  from blocks.block [OF this block(4,5)] show ?thesis by (simp add: block(1,2))
qed

lemma findall_blocks: "blocks lang s (findall lang s)"
proof (induction lang s rule: findall.induct)
  case (1 lang s)
  show ?case
  proof (cases "match_at lang s")
    case (Some m)
    obtain body rest where m: "m = (body, rest)" by (cases m)
    note match = Some [unfolded m]
    from match have sp: "split_at_first fence (drop (length (opener lang)) s) = Some (body, rest)"
      by (simp add: match_at_def split: if_splits)
    from blocks.block [OF ends_first_Nil split_at_first_ends_first [OF sp] "1.IH"(2) [OF Some m [symmetric]]]
    have "blocks lang (opener lang @ body @ fence @ rest) (body # findall lang rest)" by simp
    then show ?thesis
      by (simp add: findall_match [OF match] match_at_Some [OF match, symmetric])
  next
    case None
    show ?thesis
    proof (cases s)
      case Nil
      have "\<not> has_block lang []" by (simp add: has_block_def opener_def)
      then show ?thesis by (simp add: Nil findall_Nil blocks.no_block)
    next
      case (Cons x xs)
      from None have f: "findall lang (x # xs) = findall lang xs"
        unfolding Cons by (subst findall.simps) simp
      from blocks_step [OF None [unfolded Cons] "1.IH"(1) [OF None Cons]] show ?thesis
        by (simp add: Cons f)
    qed
  qed
qed

lemma blocks_unique:
  "\<exists>bs. blocks lang t bs \<and> (\<forall>bs'. blocks lang t bs' \<longrightarrow> bs' = bs) \<and>
     extract_code t lang = (if bs = [] then [] else last bs)"
proof (intro exI conjI allI impI)
  show "blocks lang t (findall lang t)" by (rule findall_blocks)
  show "bs' = findall lang t" if "blocks lang t bs'" for bs'
    using blocks_findall [OF that] by simp
  show "extract_code t lang = (if findall lang t = [] then [] else last (findall lang t))"
    by (cases "findall lang t") (simp_all add: extract_code_def Let_def)
qed

lemma ends_first_fence_letter: "ends_first fence [c]" if "c \<noteq> 96" for c :: nat
proof -
  from that have "split_at_first fence ([c] @ fence) = Some ([c], [])"
    by (simp add: fence_def py_def starts_with_simps)
  then show ?thesis by (rule split_at_first_ends_first)
qed

lemma no_block_Nil: "\<not> has_block lang []"
  by (simp add: has_block_def opener_def)

lemma blocks_two:
  "blocks (py ''python'')
     (fenced (py ''python'') (py ''a'') @ [newline] @ fenced (py ''python'') (py ''b''))
     [py ''a'', py ''b'']"
proof -
  have a: "ends_first fence (py ''a'')" and b: "ends_first fence (py ''b'')"
    by (simp_all add: py_def ends_first_fence_letter)
  have "\<not> starts_with (opener (py ''python'')) (([newline] @ []) @ opener (py ''python'') @ [])"
    by (simp add: opener_def fence_def py_def newline_def starts_with_simps)
  then have "\<not> starts_with (opener (py ''python'')) ([newline] @ opener (py ''python'') @ [])"
    by simp
  from ends_first_Cons [OF ends_first_Nil, of "opener (py ''python'')" newline "[]"] this
  have g: "ends_first (opener (py ''python'')) [newline]" by simp
  from blocks.block [OF g b blocks.no_block [OF no_block_Nil]]
  have "blocks (py ''python'') ([newline] @ opener (py ''python'') @ py ''b'' @ fence @ []) [py ''b'']" .
  from blocks.block [OF ends_first_Nil a this]
  show ?thesis by (simp add: fenced_def)
qed

lemma blocks_unclosed:
  "blocks (py ''python'')
     (opener (py ''python'') @ py ''p'' @ fenced (py ''python'') (py ''q''))
     [py ''p'']"
proof -
  have p: "ends_first fence (py ''p'')"
    by (simp add: py_def ends_first_fence_letter)
  have "findall (py ''python'') (py ''python'' @ [newline] @ py ''q'' @ fence) = []"
    by (simp add: opener_def fence_def py_def newline_def findall_no_opener findall_Nil starts_with_simps)
  then have "\<not> has_block (py ''python'') (py ''python'' @ [newline] @ py ''q'' @ fence)"
    by (rule findall_Nil_iff [THEN iffD1])
  from blocks.block [OF ends_first_Nil p blocks.no_block [OF this]]
  show ?thesis by (simp add: fenced_def opener_def)
qed

text \<open>
  Claim C9, amended. For every completion with at least one turn, the snippet is taken
  from the content of the last turn alone. Every text has exactly one list of blocks
  tagged \<open>python\<close> (the first opener of the text, the body up to the first fence behind
  it, then the blocks of the rest), and \<^verbatim>\<open>extract_code\<close> returns the body of the last of
  them, or the empty string when there is none. \<^verbatim>\<open>extract_code\<close> itself never raises.
\<close>

theorem extract_code_last_python_block:
  assumes "\<forall>c \<in> set completions. c \<noteq> []"
  shows "code_snippets completions =
      Inr (map (\<lambda>c. extract_code (content (last c)) (py ''python'')) completions) \<and>
    (\<forall>t. \<exists>bs. blocks (py ''python'') t bs \<and>
            (\<forall>bs'. blocks (py ''python'') t bs' \<longrightarrow> bs' = bs) \<and>
            extract_code t (py ''python'') = (if bs = [] then [] else last bs))"
proof
  show "code_snippets completions =
      Inr (map (\<lambda>c. extract_code (content (last c)) (py ''python'')) completions)"
    by (rule code_snippets_total [OF assms])
  show "\<forall>t. \<exists>bs. blocks (py ''python'') t bs \<and>
            (\<forall>bs'. blocks (py ''python'') t bs' \<longrightarrow> bs' = bs) \<and>
            extract_code t (py ''python'') = (if bs = [] then [] else last bs)"
    using blocks_unique by blast
qed

text \<open>
  Two instances: of two blocks the second is returned; when the first block is closed
  only by the fence that would open the second, the first body is returned and the
  second is no block.
\<close>

theorem extract_code_last_python_block_witness:
  "code_snippets
     [answer (fenced (py ''python'') (py ''a'') @ [newline] @ fenced (py ''python'') (py ''b''))]
     = Inr [py ''b''] \<and>
   extract_code (opener (py ''python'') @ py ''p'' @ fenced (py ''python'') (py ''q'')) (py ''python'')
     = py ''p''"
proof -
  let ?two = "fenced (py ''python'') (py ''a'') @ [newline] @ fenced (py ''python'') (py ''b'')"
  let ?unclosed = "opener (py ''python'') @ py ''p'' @ fenced (py ''python'') (py ''q'')"
  have ne: "\<forall>c \<in> set [answer ?two]. c \<noteq> []" by (simp add: answer_def)
  note both = extract_code_last_python_block [OF ne]
  from both have snip: "code_snippets [answer ?two] =
      Inr (map (\<lambda>c. extract_code (content (last c)) (py ''python'')) [answer ?two])" ..
  from both have uniq: "\<exists>bs. blocks (py ''python'') t bs \<and>
            (\<forall>bs'. blocks (py ''python'') t bs' \<longrightarrow> bs' = bs) \<and>
            extract_code t (py ''python'') = (if bs = [] then [] else last bs)" for t
    by blast
  from uniq [of ?two] blocks_two have "extract_code ?two (py ''python'') = py ''b''"
    by force
  with snip have "code_snippets [answer ?two] = Inr [py ''b'']" by (simp add: answer_def)
  moreover from uniq [of ?unclosed] blocks_unclosed
  have "extract_code ?unclosed (py ''python'') = py ''p''"
    by force
  ultimately show ?thesis by simp
qed

text \<open>
  The claim as stated fails when the language of the batch is not \<open>python\<close>: the reward
  function calls \<^verbatim>\<open>extract_code\<close> with its default tag, so the block tagged \<open>javascript\<close>
  of this completion is not found and the script is built from the empty snippet.
\<close>

theorem extract_code_ignores_language_counterexample:
  "extract_code (fenced (py ''javascript'') (py ''x'')) (py ''javascript'') = py ''x'' \<and>
   code_snippets [answer (fenced (py ''javascript'') (py ''x''))] = Inr [[]] \<and>
   snd (code_based_on_unittests_reward (payload_sandbox prints_one) True
          [answer (fenced (py ''javascript'') (py ''x''))]
          [\<lparr>language = py ''javascript'', test_cases = []\<rparr>])
     = [Create, RunCode \<lparr>script_code = [], script_test_cases = []\<rparr> (py ''javascript''), Kill]"
proof (intro conjI)
  show "extract_code (fenced (py ''javascript'') (py ''x'')) (py ''javascript'') = py ''x''"
    by (rule extract_fenced_javascript)
  show snip: "code_snippets [answer (fenced (py ''javascript'') (py ''x''))] = Inr [[]]"
    by (simp add: answer_def extract_python_from_javascript)
  show "snd (code_based_on_unittests_reward (payload_sandbox prints_one) True
          [answer (fenced (py ''javascript'') (py ''x''))]
          [\<lparr>language = py ''javascript'', test_cases = []\<rparr>])
     = [Create, RunCode \<lparr>script_code = [], script_test_cases = []\<rparr> (py ''javascript''), Kill]"
    unfolding code_based_on_unittests_reward_def snip Let_def run_async_from_sync_def
    by (simp add: build_scripts_def run_async_def run_script_def payload_sandbox_def payload_text_def
        evaluate_code_def)
qed

section \<open>The range of the rewards\<close>

lemma case_weight_range: "0 \<le> case_weight c \<and> case_weight c \<le> 1 / 4"
  by (simp add: case_weight_def)

lemma weighted_pass_sum_range:
  "0 \<le> weighted_pass_sum run code cases \<and>
   weighted_pass_sum run code cases \<le> real (length cases) / 4"
proof (induction cases)
  case Nil
  show ?case by (simp add: weighted_pass_sum_def)
next
  case (Cons c cs)
  from case_weight_range [of c] Cons.IH show ?case
    unfolding weighted_pass_sum_Cons by (simp add: field_simps)
qed

lemma evaluate_code_range:
  assumes "evaluate_code run code cases = Inr v"
  shows "0 \<le> v \<and> v \<le> real (length cases) / 4"
proof -
  from assms have "v = weighted_pass_sum run code cases"
    by (simp add: evaluate_code_def evaluate_cases_eq split: option.splits)
  with weighted_pass_sum_range [of run code cases] show ?thesis by simp
qed

lemma run_script_range:
  assumes "reports_payload run sbx" and "run_script sbx i scr lang = Inr v"
  shows "0 \<le> v \<and> v \<le> real (length (script_test_cases scr)) / 4"
proof (cases "run_code sbx i scr lang")
  case (Inl e)
  with assms(2) show ?thesis by (simp add: run_script_def)
next
  case (Inr t)
  from assms(1) have "case run_code sbx i scr lang of Inl e \<Rightarrow> True | Inr t \<Rightarrow> t = payload_text run scr"
    unfolding reports_payload_def by blast
  with Inr have t: "t = payload_text run scr" by simp
  show ?thesis
  proof (cases "evaluate_code run (script_code scr) (script_test_cases scr)")
    case (Inl e)
    with t have "t = TextNone" by (simp add: payload_text_def)
    with Inr assms(2) show ?thesis by (simp add: run_script_def)
  next
    case (Inr w)
    with t have "t = TextFloat w" by (simp add: payload_text_def)
    with \<open>run_code sbx i scr lang = Inr t\<close> assms(2) have "v = w" by (simp add: run_script_def)
    with evaluate_code_range [OF Inr] show ?thesis by simp
  qed
qed

lemma run_async_nth:
  assumes "run_async sbx scripts lang = (Inr rewards, evs)" and "i < length scripts"
  shows "run_script sbx i (scripts ! i) lang = Inr (rewards ! i)"
proof -
  let ?tasks = "map (\<lambda>(i, scr). run_script sbx i scr lang) (enumerate 0 scripts)"
  from assms(1) have g: "gather ?tasks = Inr rewards"
    by (auto simp: run_async_def Let_def split: option.splits sum.splits)
  have "i < length ?tasks" using assms(2) by simp
  from gather_Inr_nth [OF g this] have "?tasks ! i = Inr (rewards ! i)" .
  moreover have "?tasks ! i = run_script sbx i (scripts ! i) lang"
    using assms(2) by (simp add: nth_enumerate_eq)
  ultimately show ?thesis by simp
qed

lemma build_scripts_nth:
  assumes "i < length (build_scripts snippets infos)"
  shows "i < length infos \<and> script_test_cases (build_scripts snippets infos ! i) = test_cases (infos ! i)"
  using assms by (simp add: build_scripts_def)

lemma reward_cases:
  assumes "code_based_on_unittests_reward sbx available completions infos = (Inr rewards, evs)"
  shows "rewards = replicate (length completions) 0 \<or>
    (\<exists>snippets lang. run_async sbx (build_scripts snippets infos) lang = (Inr rewards, evs))"
proof -
  have av: available
  proof (rule ccontr)
    assume "\<not> available"
    then have "code_based_on_unittests_reward sbx available completions infos = (Inl ImportError, [])"
      by (simp add: code_based_on_unittests_reward_def)
    with assms show False by simp
  qed
  obtain snippets where sn: "code_snippets completions = Inr snippets"
  proof (cases "code_snippets completions")
    case (Inl e)
    with av have "code_based_on_unittests_reward sbx available completions infos = (Inl e, [])"
      by (simp add: code_based_on_unittests_reward_def)
    with assms show ?thesis by simp
  next
    case (Inr snippets)
    then show ?thesis by (rule that)
  qed
  obtain v0 rest where infos: "infos = v0 # rest"
  proof (cases infos)
    case Nil
    with av sn have "code_based_on_unittests_reward sbx available completions infos = (Inl IndexError, [])"
      by (simp add: code_based_on_unittests_reward_def)
    with assms show ?thesis by simp
  next
    case (Cons v0 rest)
    then show ?thesis by (rule that)
  qed
  have same: "list_all (\<lambda>v. language v = language v0) (v0 # rest)"
  proof (rule ccontr)
    assume "\<not> list_all (\<lambda>v. language v = language v0) (v0 # rest)"
    with av sn have "code_based_on_unittests_reward sbx available completions (v0 # rest)
        = (Inl (ValueError (v0 # rest)), [])"
      by (simp add: code_based_on_unittests_reward_def)
    with assms show False unfolding infos by simp
  qed
  obtain res evs' where run: "run_async sbx (build_scripts snippets (v0 # rest)) (language v0) = (res, evs')"
    by (cases "run_async sbx (build_scripts snippets (v0 # rest)) (language v0)")
  from reward_unfold [OF sn same, of sbx] av assms
  have "(Inr rewards, evs) =
      (case res of Inl e \<Rightarrow> (Inr (replicate (length completions) 0), evs') | Inr rs \<Rightarrow> (Inr rs, evs'))"
    unfolding infos run by (simp split: sum.splits)
  then show ?thesis
  proof (cases res)
    case (Inl e)
    with \<open>(Inr rewards, evs) = _\<close> show ?thesis by simp
  next
    case (Inr rs)
    with \<open>(Inr rewards, evs) = _\<close> have "rs = rewards" and "evs' = evs" by simp_all
    with run Inr infos show ?thesis by blast
  qed
qed

lemma reward_within_quarters:
  assumes "reports_payload run sbx"
    and "code_based_on_unittests_reward sbx available completions infos = (Inr rewards, evs)"
  shows "within_quarters rewards infos"
  unfolding within_quarters_def
proof (intro allI impI)
  fix i assume i: "i < length rewards"
  from reward_cases [OF assms(2)]
  show "0 \<le> rewards ! i \<and>
        rewards ! i \<le> (if i < length infos then real (length (test_cases (infos ! i))) / 4 else 0)"
  proof
    assume "rewards = replicate (length completions) 0"
    with i show ?thesis by simp
  next
    assume "\<exists>snippets lang. run_async sbx (build_scripts snippets infos) lang = (Inr rewards, evs)"
    then obtain snippets lang
      where run: "run_async sbx (build_scripts snippets infos) lang = (Inr rewards, evs)" by blast
    from run_async_length [OF run] i have i': "i < length (build_scripts snippets infos)" by simp
    from run_script_range [OF assms(1) run_async_nth [OF run i']] build_scripts_nth [OF i']
    show ?thesis by simp
  qed
qed

lemma within_quarters_mono:
  assumes "within_quarters rewards infos'" and "length infos' = length infos"
    and "\<forall>i < length infos. length (test_cases (infos' ! i)) \<le> length (test_cases (infos ! i))"
  shows "within_quarters rewards infos"
  unfolding within_quarters_def
proof (intro allI impI)
  fix i assume i: "i < length rewards"
  with assms(1) have a: "0 \<le> rewards ! i"
    and b: "rewards ! i \<le> (if i < length infos' then real (length (test_cases (infos' ! i))) / 4 else 0)"
    unfolding within_quarters_def by simp_all
  show "0 \<le> rewards ! i \<and>
        rewards ! i \<le> (if i < length infos then real (length (test_cases (infos ! i))) / 4 else 0)"
  proof (cases "i < length infos")
    case True
    with assms(3) have "real (length (test_cases (infos' ! i))) \<le> real (length (test_cases (infos ! i)))"
      by simp
    with a b True assms(2) show ?thesis by simp
  next
    case False
    with a b assms(2) show ?thesis by simp
  qed
qed

lemma within_quarters_unit:
  assumes "within_quarters rewards infos" and "\<forall>v \<in> set infos. length (test_cases v) \<le> 4"
  shows "\<forall>r \<in> set rewards. 0 \<le> r \<and> r \<le> 1"
proof
  fix r assume "r \<in> set rewards"
  then obtain i where i: "i < length rewards" and r: "r = rewards ! i"
    by (auto simp: in_set_conv_nth)
  with assms(1) have a: "0 \<le> r"
    and b: "r \<le> (if i < length infos then real (length (test_cases (infos ! i))) / 4 else 0)"
    unfolding within_quarters_def by simp_all
  show "0 \<le> r \<and> r \<le> 1"
  proof (cases "i < length infos")
    case True
    with assms(2) have "length (test_cases (infos ! i)) \<le> 4" by simp
    then have "real (length (test_cases (infos ! i))) / 4 \<le> 1" by simp
    with a b True show ?thesis by simp
  next
    case False
    with a b show ?thesis by simp
  qed
qed

lemma extract_fenced_print:
  "extract_code (fenced (py ''python'') (py ''print(1)'')) (py ''python'') = py ''print(1)''"
proof -
  have m: "match_at (py ''python'') (fenced (py ''python'') (py ''print(1)'')) = Some (py ''print(1)'', [])"
    by (simp add: match_at_def fenced_def opener_def fence_def py_def newline_def starts_with_simps)
  show ?thesis
    by (simp add: extract_code_def findall_match [OF m] findall_Nil)
qed

lemma evaluate_one_basic:
  "evaluate_code prints_one code [basic_case []] = Inr (1 / 4)"
  by (simp add: evaluate_code_def evaluate_cases_eq weighted_pass_sum_def basic_case_passes
      basic_case_weight prints_one_empty basic_case_input)

lemma evaluate_five_basic:
  "evaluate_code prints_one code
     [basic_case [], basic_case [], basic_case [], basic_case [], basic_case []] = Inr (5 / 4)"
  by (simp add: evaluate_code_def evaluate_cases_eq weighted_pass_sum_def basic_case_passes
      basic_case_weight prints_one_empty basic_case_input)

lemma payload_sandbox_reward:
  assumes "code_snippets completions = Inr [code]"
    and "evaluate_code run code cases = Inr v"
  shows "code_based_on_unittests_reward (payload_sandbox run) True completions [python_info cases]
    = (Inr [v], [Create, RunCode \<lparr>script_code = code, script_test_cases = cases\<rparr> (py ''python''), Kill])"
  unfolding code_based_on_unittests_reward_def assms(1) Let_def run_async_from_sync_def
  by (simp add: build_scripts_def python_info_def run_async_def run_script_def payload_sandbox_def
      payload_text_def assms(2))

text \<open>
  Claim C7, amended. When every request to the sandbox raises or answers with the value
  of the payload, every reward that the reward function or the curriculum-aware function
  returns is at least 0 and at most a quarter of the number of test cases of its record;
  so it lies between 0 and 1 when no record has more than four test cases.
\<close>

theorem rewards_within_quarters:
  assumes "reports_payload run sbx"
    and "code_based_on_unittests_reward sbx available completions infos = (Inr rewards, evs) \<or>
         fst (curriculum_aware_reward_fn sbx available completions infos epoch) = (Inr rewards, evs)"
  shows "within_quarters rewards infos \<and>
    ((\<forall>v \<in> set infos. length (test_cases v) \<le> 4) \<longrightarrow> (\<forall>r \<in> set rewards. 0 \<le> r \<and> r \<le> 1))"
proof -
  have wq: "within_quarters rewards infos"
    using assms(2)
  proof
    assume "code_based_on_unittests_reward sbx available completions infos = (Inr rewards, evs)"
    from reward_within_quarters [OF assms(1) this] show ?thesis .
  next
    let ?infos' = "map (filter_test_cases (label_schedule epoch)) infos"
    assume "fst (curriculum_aware_reward_fn sbx available completions infos epoch) = (Inr rewards, evs)"
    then have "code_based_on_unittests_reward sbx available completions ?infos' = (Inr rewards, evs)"
      by (simp add: curriculum_aware_reward_fn_def Let_def)
    from reward_within_quarters [OF assms(1) this] have "within_quarters rewards ?infos'" .
    moreover have "length ?infos' = length infos" by simp
    moreover have "\<forall>i < length infos.
        length (test_cases (?infos' ! i)) \<le> length (test_cases (infos ! i))"
      by (simp add: filter_test_cases_def)
    ultimately show ?thesis by (rule within_quarters_mono)
  qed
  with within_quarters_unit [OF wq] show ?thesis by blast
qed

theorem rewards_within_quarters_witness:
  "fst (code_based_on_unittests_reward (payload_sandbox prints_one) True
          [answer (fenced (py ''python'') (py ''print(1)''))] [python_info [basic_case []]])
     = Inr [1 / 4] \<and>
   within_quarters [1 / 4] [python_info [basic_case []]] \<and>
   0 \<le> (1 / 4 :: real) \<and> (1 / 4 :: real) \<le> 1"
proof -
  have r: "reports_payload prints_one (payload_sandbox prints_one)"
    by (simp add: reports_payload_def payload_sandbox_def)
  have s: "code_snippets [answer (fenced (py ''python'') (py ''print(1)''))] = Inr [py ''print(1)'']"
    by (simp add: answer_def extract_fenced_print)
  note c = payload_sandbox_reward [OF s evaluate_one_basic]
  from rewards_within_quarters [OF r disjI1 [OF c]]
  have "within_quarters [1 / 4] [python_info [basic_case []]]" by simp
  with c show ?thesis by simp
qed

text \<open>
  The claim as stated fails: five test cases labelled \<open>basic\<close> that all pass give the
  reward 1.25, since the sum of the weights is not normalised.
\<close>

theorem five_passed_cases_counterexample:
  "fst (code_based_on_unittests_reward (payload_sandbox prints_one) True
          [answer (fenced (py ''python'') (py ''print(1)''))]
          [python_info [basic_case [], basic_case [], basic_case [], basic_case [], basic_case []]])
     = Inr [5 / 4]"
proof -
  have s: "code_snippets [answer (fenced (py ''python'') (py ''print(1)''))] = Inr [py ''print(1)'']"
    by (simp add: answer_def extract_fenced_print)
  from payload_sandbox_reward [OF s evaluate_five_basic] show ?thesis by simp
qed

end
